theory Spec2Isabelle
  imports Main "HOL-Library.Word"
begin

unbundle bit_operations_syntax

section \<open>Bytes, digests and the hash function\<close>

text \<open>
  Solidity's \<open>bytes32\<close> and \<open>uint256\<close> are 256-bit words, an \<open>address\<close> is a
  160-bit word, and a byte string (Solidity \<open>bytes\<close>, a Node \<open>Buffer\<close>) is a list of
  8-bit words. \<open>keccak256\<close> is an argument of every definition that hashes: the
  contracts and the relayer call the same function, and nothing proved below
  depends on which function it is.
\<close>

type_synonym byte = "8 word"
type_synonym bytes = "byte list"
type_synonym bytes32 = "256 word"
type_synonym uint256 = "256 word"
type_synonym address = "160 word"
type_synonym hashfn = "bytes \<Rightarrow> bytes32"

text \<open>Big-endian bytes of a number, \<open>k\<close> bytes wide (the high bytes are cut off).\<close>

fun be_bytes :: "nat \<Rightarrow> nat \<Rightarrow> bytes" where
  "be_bytes 0 x = []"
| "be_bytes (Suc k) x = be_bytes k (x div 256) @ [of_nat (x mod 256)]"

text \<open>\<open>abi.encodePacked\<close> of one value: an address is 20 bytes, a \<open>uint256\<close> or
  \<open>bytes32\<close> is 32 bytes, no padding in between.\<close>

definition encodePacked_address :: "address \<Rightarrow> bytes" where
  "encodePacked_address a = be_bytes 20 (unat a)"

definition encodePacked_uint256 :: "uint256 \<Rightarrow> bytes" where
  "encodePacked_uint256 x = be_bytes 32 (unat x)"

text \<open>Solidity 0.8 checked addition: overflow panics (code 0x11).\<close>

definition checked_add :: "uint256 \<Rightarrow> uint256 \<Rightarrow> uint256 option" where
  "checked_add a b = (if unat a + unat b < 2 ^ 256 then Some (a + b) else None)"

section \<open>MessageLib.sol and MerkleProof.sol\<close>

text \<open>\<open>MessageLib.generateLeafHash\<close>: \<open>keccak256(abi.encodePacked(sender, recipient,
  amount, nonce, sourceChainId, destinationChainId, timestamp))\<close>.\<close>

definition MessageLib_encodePacked ::
  "address \<Rightarrow> address \<Rightarrow> uint256 \<Rightarrow> uint256 \<Rightarrow> uint256 \<Rightarrow> uint256 \<Rightarrow> uint256 \<Rightarrow> bytes" where
  "MessageLib_encodePacked sender recipient amount nonce sourceChainId destinationChainId timestamp =
     encodePacked_address sender @ encodePacked_address recipient @
     encodePacked_uint256 amount @ encodePacked_uint256 nonce @
     encodePacked_uint256 sourceChainId @ encodePacked_uint256 destinationChainId @
     encodePacked_uint256 timestamp"

definition MessageLib_generateLeafHash ::
  "hashfn \<Rightarrow> address \<Rightarrow> address \<Rightarrow> uint256 \<Rightarrow> uint256 \<Rightarrow> uint256 \<Rightarrow> uint256 \<Rightarrow> uint256 \<Rightarrow> bytes32" where
  "MessageLib_generateLeafHash keccak256 sender recipient amount nonce sourceChainId destinationChainId timestamp =
     keccak256 (MessageLib_encodePacked sender recipient amount nonce sourceChainId destinationChainId timestamp)"

text \<open>\<open>MerkleProof._efficientHash\<close> stores \<open>a\<close> at memory 0x00 and \<open>b\<close> at 0x20 and
  hashes the 64 bytes; \<open>_hashPair\<close> puts the smaller word first; \<open>processProof\<close>
  folds the leaf through the proof from index 0 upwards.\<close>

definition efficientHash :: "hashfn \<Rightarrow> bytes32 \<Rightarrow> bytes32 \<Rightarrow> bytes32" where
  "efficientHash keccak256 a b = keccak256 (encodePacked_uint256 a @ encodePacked_uint256 b)"

definition hashPair :: "hashfn \<Rightarrow> bytes32 \<Rightarrow> bytes32 \<Rightarrow> bytes32" where
  "hashPair keccak256 a b =
     (if a < b then efficientHash keccak256 a b else efficientHash keccak256 b a)"

fun processProof :: "hashfn \<Rightarrow> bytes32 list \<Rightarrow> bytes32 \<Rightarrow> bytes32" where
  "processProof keccak256 [] computedHash = computedHash"
| "processProof keccak256 (p # proof) computedHash =
     processProof keccak256 proof (hashPair keccak256 computedHash p)"

definition MerkleProof_verify :: "hashfn \<Rightarrow> bytes32 list \<Rightarrow> bytes32 \<Rightarrow> bytes32 \<Rightarrow> bool" where
  "MerkleProof_verify keccak256 proof root leaf = (processProof keccak256 proof leaf = root)"

section \<open>BridgeValidator.sol\<close>

text \<open>
  The contract's storage, with the storage it inherits from OpenZeppelin's
  \<open>Ownable\<close> (\<open>v_owner\<close>) and \<open>Pausable\<close> (\<open>v_paused\<close>). The flag of
  \<open>ReentrancyGuard\<close> is not stored here: no function of the validator calls out,
  so every call finds it cleared. A revert is the \<open>Inl\<close> branch of the result and
  carries no state: the caller keeps the state it had (\<open>state_after\<close>). Events are
  not modelled: no contract reads them.
\<close>

datatype error =
    InvalidProof
  | NonceAlreadyUsed uint256
  | InvalidRoot
  | RootUpdateTooSoon
  | InvalidRelayer
  | ZeroAddress
  | EnforcedPause
  | ExpectedPause
  | OwnableUnauthorizedAccount address
  | Panic nat
  | InsufficientAmount
  | ExceedsMaximum
  | InvalidRecipient
  | TransactionAlreadyProcessed
  | TransferFailed
  | RequireFailed string
  | ERC20InvalidReceiver address
  | ERC20InvalidSender address
  | ERC20InsufficientBalance address uint256 uint256
  | OutOfFunds

record env =
  msg_sender :: address
  block_timestamp :: uint256

record validator_state =
  validRoots :: "bytes32 \<Rightarrow> bool"
  usedNonces :: "uint256 \<Rightarrow> bool"
  validatedTransactions :: uint256
  lastRootUpdate :: uint256
  relayer :: address
  v_owner :: address
  v_paused :: bool

definition MIN_ROOT_UPDATE_DELAY :: uint256 where
  "MIN_ROOT_UPDATE_DELAY = 60"

text \<open>The storage a successful deployment leaves: empty mappings, the relayer
  given, the deployer as owner, \<open>lastRootUpdate = block.timestamp\<close>.\<close>

definition validator_init :: "env \<Rightarrow> address \<Rightarrow> validator_state" where
  "validator_init e relayer0 =
     \<lparr> validRoots = (\<lambda>_. False), usedNonces = (\<lambda>_. False),
       validatedTransactions = 0, lastRootUpdate = block_timestamp e,
       relayer = relayer0, v_owner = msg_sender e, v_paused = False \<rparr>"

definition validator_constructor :: "env \<Rightarrow> address \<Rightarrow> error + validator_state" where
  "validator_constructor e relayer0 =
     (if relayer0 = 0 then Inl ZeroAddress else Inr (validator_init e relayer0))"

definition registerRoot :: "env \<Rightarrow> validator_state \<Rightarrow> bytes32 \<Rightarrow> error + validator_state" where
  "registerRoot e s root =
     (if msg_sender e \<noteq> relayer s then Inl InvalidRelayer
      else if v_paused s then Inl EnforcedPause
      else case checked_add (lastRootUpdate s) MIN_ROOT_UPDATE_DELAY of
             None \<Rightarrow> Inl (Panic 17)
           | Some t \<Rightarrow>
               if block_timestamp e < t then Inl RootUpdateTooSoon
               else Inr (s\<lparr> validRoots := (validRoots s)(root := True),
                            lastRootUpdate := block_timestamp e \<rparr>))"

definition validateTransaction ::
  "hashfn \<Rightarrow> env \<Rightarrow> validator_state \<Rightarrow> address \<Rightarrow> address \<Rightarrow> uint256 \<Rightarrow> uint256 \<Rightarrow> uint256 \<Rightarrow> uint256 \<Rightarrow>
     uint256 \<Rightarrow> bytes32 list \<Rightarrow> bytes32 \<Rightarrow> error + (bool \<times> validator_state)" where
  "validateTransaction keccak256 e s sender recipient amount nonce sourceChainId destinationChainId
       timestamp proof root =
     (if v_paused s then Inl EnforcedPause
      else if usedNonces s nonce then Inl (NonceAlreadyUsed nonce)
      else if \<not> validRoots s root then Inl InvalidRoot
      else let leafHash = MessageLib_generateLeafHash keccak256 sender recipient amount nonce
                            sourceChainId destinationChainId timestamp
           in if \<not> MerkleProof_verify keccak256 proof root leafHash then Inl InvalidProof
              else case checked_add (validatedTransactions s) 1 of
                     None \<Rightarrow> Inl (Panic 17)
                   | Some c \<Rightarrow>
                       Inr (True, s\<lparr> usedNonces := (usedNonces s)(nonce := True),
                                     validatedTransactions := c \<rparr>))"

definition verifyProof_view :: "hashfn \<Rightarrow> validator_state \<Rightarrow> bytes32 \<Rightarrow> bytes32 list \<Rightarrow> bytes32 \<Rightarrow> bool" where
  "verifyProof_view keccak256 s leafHash proof root =
     (if \<not> validRoots s root then False else MerkleProof_verify keccak256 proof root leafHash)"

definition isNonceUsed :: "validator_state \<Rightarrow> uint256 \<Rightarrow> bool" where
  "isNonceUsed s nonce = usedNonces s nonce"

definition isRootValid :: "validator_state \<Rightarrow> bytes32 \<Rightarrow> bool" where
  "isRootValid s root = validRoots s root"

definition updateRelayer :: "env \<Rightarrow> validator_state \<Rightarrow> address \<Rightarrow> error + validator_state" where
  "updateRelayer e s newRelayer =
     (if msg_sender e \<noteq> v_owner s then Inl (OwnableUnauthorizedAccount (msg_sender e))
      else if newRelayer = 0 then Inl ZeroAddress
      else Inr (s\<lparr> relayer := newRelayer \<rparr>))"

definition validator_pause :: "env \<Rightarrow> validator_state \<Rightarrow> error + validator_state" where
  "validator_pause e s =
     (if msg_sender e \<noteq> v_owner s then Inl (OwnableUnauthorizedAccount (msg_sender e))
      else if v_paused s then Inl EnforcedPause
      else Inr (s\<lparr> v_paused := True \<rparr>))"

definition validator_unpause :: "env \<Rightarrow> validator_state \<Rightarrow> error + validator_state" where
  "validator_unpause e s =
     (if msg_sender e \<noteq> v_owner s then Inl (OwnableUnauthorizedAccount (msg_sender e))
      else if \<not> v_paused s then Inl ExpectedPause
      else Inr (s\<lparr> v_paused := False \<rparr>))"

text \<open>\<open>batchRegisterRoots\<close>: one delay check, then every root of the array is set.\<close>

fun register_each :: "(bytes32 \<Rightarrow> bool) \<Rightarrow> bytes32 list \<Rightarrow> (bytes32 \<Rightarrow> bool)" where
  "register_each vr [] = vr"
| "register_each vr (r # roots) = register_each (vr(r := True)) roots"

definition batchRegisterRoots :: "env \<Rightarrow> validator_state \<Rightarrow> bytes32 list \<Rightarrow> error + validator_state" where
  "batchRegisterRoots e s roots =
     (if msg_sender e \<noteq> relayer s then Inl InvalidRelayer
      else if v_paused s then Inl EnforcedPause
      else case checked_add (lastRootUpdate s) MIN_ROOT_UPDATE_DELAY of
             None \<Rightarrow> Inl (Panic 17)
           | Some t \<Rightarrow>
               if block_timestamp e < t then Inl RootUpdateTooSoon
               else Inr (s\<lparr> validRoots := register_each (validRoots s) roots,
                            lastRootUpdate := block_timestamp e \<rparr>))"

definition invalidateRoot :: "env \<Rightarrow> validator_state \<Rightarrow> bytes32 \<Rightarrow> error + validator_state" where
  "invalidateRoot e s root =
     (if msg_sender e \<noteq> v_owner s then Inl (OwnableUnauthorizedAccount (msg_sender e))
      else Inr (s\<lparr> validRoots := (validRoots s)(root := False) \<rparr>))"

text \<open>The state a caller sees after a call: the old one when the call reverted.\<close>

definition state_after :: "'s \<Rightarrow> error + 's \<Rightarrow> 's" where
  "state_after s r = (case r of Inl _ \<Rightarrow> s | Inr s' \<Rightarrow> s')"

definition state_after_ret :: "'s \<Rightarrow> error + ('r \<times> 's) \<Rightarrow> 's" where
  "state_after_ret s r = (case r of Inl _ \<Rightarrow> s | Inr (_, s') \<Rightarrow> s')"

text \<open>Every state-changing external function of the validator, as one call type.\<close>

datatype validator_call =
    RegisterRoot bytes32
  | ValidateTransaction address address uint256 uint256 uint256 uint256 uint256 "bytes32 list" bytes32
  | UpdateRelayer address
  | Pause
  | Unpause
  | BatchRegisterRoots "bytes32 list"
  | InvalidateRoot bytes32

fun validator_step :: "hashfn \<Rightarrow> env \<Rightarrow> validator_state \<Rightarrow> validator_call \<Rightarrow> validator_state" where
  "validator_step keccak256 e s (RegisterRoot root) = state_after s (registerRoot e s root)"
| "validator_step keccak256 e s (ValidateTransaction sender recipient amount nonce src dst ts proof root) =
     state_after_ret s (validateTransaction keccak256 e s sender recipient amount nonce src dst ts proof root)"
| "validator_step keccak256 e s (UpdateRelayer a) = state_after s (updateRelayer e s a)"
| "validator_step keccak256 e s Pause = state_after s (validator_pause e s)"
| "validator_step keccak256 e s Unpause = state_after s (validator_unpause e s)"
| "validator_step keccak256 e s (BatchRegisterRoots roots) = state_after s (batchRegisterRoots e s roots)"
| "validator_step keccak256 e s (InvalidateRoot root) = state_after s (invalidateRoot e s root)"

text \<open>A run: each call comes with its own sender and block timestamp.\<close>

fun validator_run :: "hashfn \<Rightarrow> validator_state \<Rightarrow> (env \<times> validator_call) list \<Rightarrow> validator_state" where
  "validator_run keccak256 s [] = s"
| "validator_run keccak256 s ((e, c) # cs) = validator_run keccak256 (validator_step keccak256 e s c) cs"

section \<open>BridgeToken.sol (with the validator of its chain)\<close>



















section \<open>BridgeVault.sol (with the validator of its chain)\<close>




















section \<open>relayer/src/proofGenerator.ts: the leaf digest\<close>

text \<open>
  The relayer's \<open>Transaction\<close>. \<open>sender\<close> and \<open>recipient\<close> are the strings the event
  carried (\<open>0x\<close> and hexadecimal digits). \<open>amount\<close> is a string in the source, always
  the decimal rendering of a bigint (\<open>amount.toString()\<close> in the event listener); the
  model keeps the integer \<open>BigInt(tx.amount)\<close> denotes. The other four numeric fields
  are of type \<open>number\<close>, IEEE doubles: the model keeps the integer the double holds.
  Every integer below \<open>2^53\<close> in absolute value is a double; above, only the
  multiples of a power of two are, and \<open>Number(x)\<close> rounds to one of them.
\<close>

record Transaction =
  tx_sender :: string
  tx_recipient :: string
  tx_amount :: int
  tx_nonce :: int
  tx_sourceChainId :: int
  tx_destinationChainId :: int
  tx_timestamp :: int

text \<open>\<open>BigInt.prototype.toString(16)\<close>: every digit of the integer, lower case, no
  leading zero, a minus sign for a negative value.\<close>

definition hex_digit :: "nat \<Rightarrow> char" where
  "hex_digit d = ''0123456789abcdef'' ! d"

fun hex_of_nat :: "nat \<Rightarrow> string" where
  "hex_of_nat n = (if n < 16 then [hex_digit n] else hex_of_nat (n div 16) @ [hex_digit (n mod 16)])"

declare hex_of_nat.simps [simp del]

definition toString16 :: "int \<Rightarrow> string" where
  "toString16 i = (if i < 0 then CHR ''-'' # hex_of_nat (nat (- i)) else hex_of_nat (nat i))"

text \<open>\<open>Number.prototype.toString(16)\<close> of a number holding an integer. Below \<open>2^53\<close>
  it prints every digit, as for a bigint. From \<open>2^53\<close> on the language leaves the
  digits to the engine; this is what V8 (the engine of Node) does: the double is
  divided by 16, a \<open>0\<close> printed for each division, until it is below \<open>2^53\<close>, and the
  digits of its integer part are printed in front. The engine is not part of the
  repository.\<close>

function Number_hex :: "nat \<Rightarrow> string" where
  "Number_hex v =
     (if v < 9007199254740992 then hex_of_nat v else Number_hex (v div 16) @ ''0'')"
  by pat_completeness auto

termination
  by (relation "measure id") auto

declare Number_hex.simps [simp del]

definition Number_toString16 :: "int \<Rightarrow> string" where
  "Number_toString16 i =
     (if i < 0 then CHR ''-'' # Number_hex (nat (- i)) else Number_hex (nat i))"

text \<open>\<open>String.prototype.padStart(n, c)\<close> with a one-character filler, and
  \<open>slice(2)\<close>.\<close>

definition padStart :: "nat \<Rightarrow> char \<Rightarrow> string \<Rightarrow> string" where
  "padStart n c s = replicate (n - length s) c @ s"

definition slice2 :: "string \<Rightarrow> string" where
  "slice2 s = drop 2 s"

text \<open>\<open>Buffer.from(s, 'hex')\<close>: two digits (either case) make a byte; decoding stops
  at the first pair that is not two hexadecimal digits, and a trailing single
  character is dropped.\<close>

definition hex_val :: "char \<Rightarrow> nat option" where
  "hex_val c =
     (let n = (of_char c :: nat) in
      if 48 \<le> n \<and> n \<le> 57 then Some (n - 48)
      else if 97 \<le> n \<and> n \<le> 102 then Some (n - 87)
      else if 65 \<le> n \<and> n \<le> 70 then Some (n - 55)
      else None)"

fun Buffer_from_hex :: "string \<Rightarrow> bytes" where
  "Buffer_from_hex (a # b # rest) =
     (case (hex_val a, hex_val b) of
        (Some x, Some y) \<Rightarrow> of_nat (16 * x + y) # Buffer_from_hex rest
      | _ \<Rightarrow> [])"
| "Buffer_from_hex _ = []"

definition encodeTransaction :: "Transaction \<Rightarrow> bytes" where
  "encodeTransaction tx =
     Buffer_from_hex (slice2 (tx_sender tx)) @
     Buffer_from_hex (slice2 (tx_recipient tx)) @
     Buffer_from_hex (padStart 64 CHR ''0'' (toString16 (tx_amount tx))) @
     Buffer_from_hex (padStart 64 CHR ''0'' (Number_toString16 (tx_nonce tx))) @
     Buffer_from_hex (padStart 64 CHR ''0'' (Number_toString16 (tx_sourceChainId tx))) @
     Buffer_from_hex (padStart 64 CHR ''0'' (Number_toString16 (tx_destinationChainId tx))) @
     Buffer_from_hex (padStart 64 CHR ''0'' (Number_toString16 (tx_timestamp tx)))"

definition generateLeafHash :: "hashfn \<Rightarrow> Transaction \<Rightarrow> bytes32" where
  "generateLeafHash keccak256 tx = keccak256 (encodeTransaction tx)"


definition digit_val :: "char \<Rightarrow> nat" where
  "digit_val c = (case hex_val c of Some d \<Rightarrow> d | None \<Rightarrow> 0)"

definition hex_value :: "string \<Rightarrow> nat" where
  "hex_value s = foldl (\<lambda>acc c. 16 * acc + digit_val c) 0 s"



section \<open>relayer/src/proofGenerator.ts: the Merkle tree (merkletreejs)\<close>

text \<open>
  \<open>ProofGenerator\<close> builds \<open>new MerkleTree(leaves, keccak256, {sortPairs: true,
  hashLeaves: false})\<close>. The library is not part of the repository; this is its
  behaviour under these options (all others at their defaults). Nodes are Buffers.
  A digest travels through the relayer as a hexadecimal string and the library turns
  it back into a Buffer; the two forms are identified here (\<open>bufferify\<close>).
\<close>

definition bufferify :: "bytes32 \<Rightarrow> bytes" where
  "bufferify h = be_bytes 32 (unat h)"

definition keccak256_buffer :: "hashfn \<Rightarrow> bytes \<Rightarrow> bytes" where
  "keccak256_buffer keccak256 b = bufferify (keccak256 b)"

text \<open>\<open>Buffer.compare\<close>: bytewise, then by length; the result is -1, 0 or 1.\<close>

fun Buffer_compare :: "bytes \<Rightarrow> bytes \<Rightarrow> int" where
  "Buffer_compare [] [] = 0"
| "Buffer_compare [] (y # ys) = - 1"
| "Buffer_compare (x # xs) [] = 1"
| "Buffer_compare (x # xs) (y # ys) =
     (if x < y then - 1 else if y < x then 1 else Buffer_compare xs ys)"

text \<open>One parent: \<open>combined = [left, right]\<close>, sorted with \<open>Buffer.compare\<close>,
  concatenated and hashed.\<close>

definition combine :: "hashfn \<Rightarrow> bytes \<Rightarrow> bytes \<Rightarrow> bytes" where
  "combine keccak256 left right =
     (if Buffer_compare left right > 0 then keccak256_buffer keccak256 (right @ left)
      else keccak256_buffer keccak256 (left @ right))"

text \<open>One pass of \<open>_createHashes\<close>: pairs are combined; the last node of a layer of
  odd length is pushed unchanged (\<open>duplicateOdd\<close> is off).\<close>

fun next_layer :: "hashfn \<Rightarrow> bytes list \<Rightarrow> bytes list" where
  "next_layer keccak256 (l # r # rest) = combine keccak256 l r # next_layer keccak256 rest"
| "next_layer keccak256 [x] = [x]"
| "next_layer keccak256 [] = []"

lemma length_next_layer [simp]: "length (next_layer keccak256 nodes) = (length nodes + 1) div 2"
  by (induction keccak256 nodes rule: next_layer.induct) simp_all

function createHashes :: "hashfn \<Rightarrow> bytes list \<Rightarrow> bytes list list" where
  "createHashes keccak256 nodes =
     (if length nodes > 1 then nodes # createHashes keccak256 (next_layer keccak256 nodes)
      else [nodes])"
  by pat_completeness auto
termination
  by (relation "measure (\<lambda>(keccak256, nodes). length nodes)") auto

declare createHashes.simps [simp del]

text \<open>\<open>getRoot\<close>: the first node of the last layer, or the empty Buffer.\<close>

definition getRoot :: "bytes list list \<Rightarrow> bytes" where
  "getRoot layers =
     (case layers of [] \<Rightarrow> []
      | _ \<Rightarrow> (case last layers of [] \<Rightarrow> [] | x # _ \<Rightarrow> x))"

text \<open>\<open>getProof(leaf)\<close>: the index is that of the last leaf equal to \<open>leaf\<close>, or
  \<open>-1\<close> (then the proof is empty); in every layer the sibling of the current index
  is pushed when it exists, and the index is halved.\<close>

fun find_index_from :: "bytes \<Rightarrow> bytes list \<Rightarrow> nat \<Rightarrow> nat option \<Rightarrow> nat option" where
  "find_index_from leaf [] i found = found"
| "find_index_from leaf (x # xs) i found =
     find_index_from leaf xs (Suc i) (if Buffer_compare leaf x = 0 then Some i else found)"

fun proof_from :: "bytes list list \<Rightarrow> nat \<Rightarrow> bytes list" where
  "proof_from [] index = []"
| "proof_from (layer # layers) index =
     (let pairIndex = (if index mod 2 = 1 then index - 1 else index + 1)
      in (if pairIndex < length layer then [layer ! pairIndex] else []) @
         proof_from layers (index div 2))"

definition getProof :: "bytes list \<Rightarrow> bytes list list \<Rightarrow> bytes \<Rightarrow> bytes list" where
  "getProof leaves layers leaf =
     (case find_index_from leaf leaves 0 None of
        None \<Rightarrow> []
      | Some index \<Rightarrow> proof_from layers index)"




text \<open>The static methods of \<open>ProofGenerator\<close>. A tree is its leaves and layers.\<close>

record MerkleTree =
  mt_leaves :: "bytes list"
  mt_layers :: "bytes list list"

definition buildMerkleTree :: "hashfn \<Rightarrow> Transaction list \<Rightarrow> MerkleTree" where
  "buildMerkleTree keccak256 transactions =
     (let leaves = map (\<lambda>tx. bufferify (generateLeafHash keccak256 tx)) transactions
      in \<lparr> mt_leaves = leaves, mt_layers = createHashes keccak256 leaves \<rparr>)"

record ProofAndRoot =
  pr_proof :: "bytes list"
  pr_root :: bytes

definition generateProof :: "hashfn \<Rightarrow> Transaction list \<Rightarrow> Transaction \<Rightarrow> ProofAndRoot" where
  "generateProof keccak256 transactions targetTx =
     (let tree = buildMerkleTree keccak256 transactions;
          leafHash = bufferify (generateLeafHash keccak256 targetTx)
      in \<lparr> pr_proof = getProof (mt_leaves tree) (mt_layers tree) leafHash,
            pr_root = getRoot (mt_layers tree) \<rparr>)"




definition getMerkleRoot :: "hashfn \<Rightarrow> Transaction list \<Rightarrow> bytes" where
  "getMerkleRoot keccak256 transactions = getRoot (mt_layers (buildMerkleTree keccak256 transactions))"



text \<open>\<open>validateTransaction\<close> of the proof generator (no caller in the relayer).\<close>

definition ProofGenerator_validateTransaction :: "Transaction \<Rightarrow> bool" where
  "ProofGenerator_validateTransaction tx =
     (if tx_sender tx = [] \<or> tx_recipient tx = [] then False
      else if tx_amount tx \<le> 0 then False
      else if tx_nonce tx < 0 then False
      else if tx_sourceChainId tx = tx_destinationChainId tx then False
      else True)"


section \<open>relayer/src/database.ts\<close>

text \<open>
  A row of \<open>bridge_transactions\<close>. The status \<open>processing\<close> is what the specification
  calls \<open>proof_building\<close>. Strings that hold numbers or digests are kept as the values
  they denote: \<open>amount\<close> (a decimal string) as an integer, \<open>leafHash\<close> as a digest,
  \<open>proof\<close> (JSON text of an array of hexadecimal strings) as the list of Buffers,
  \<open>merkleRoot\<close> as a Buffer. \<open>None\<close> is SQL \<open>NULL\<close>. The table is the list of its rows
  in rowid order; the \<open>merkle_roots\<close> table is never written by the pipeline and is left
  out.
\<close>

datatype status = Pending | Processing | Completed | Failed

record BridgeTransaction =
  bt_id :: "nat option"
  bt_txHash :: string
  bt_sourceChain :: string
  bt_destChain :: string
  bt_sender :: string
  bt_recipient :: string
  bt_amount :: int
  bt_nonce :: int
  bt_timestamp :: int
  bt_leafHash :: bytes32
  bt_proof :: "bytes list option"
  bt_merkleRoot :: "bytes option"
  bt_status :: status
  bt_destTxHash :: "string option"
  bt_errorMessage :: "string option"
  bt_createdAt :: int
  bt_updatedAt :: int

type_synonym database = "BridgeTransaction list"

text \<open>\<open>insertTransaction\<close>: \<open>txHash\<close> is \<open>UNIQUE\<close>, so inserting a second row with the
  same hash throws; otherwise the row is appended with the next id.\<close>

definition insertTransaction :: "database \<Rightarrow> BridgeTransaction \<Rightarrow> string + (nat \<times> database)" where
  "insertTransaction db tx =
     (if list_ex (\<lambda>r. bt_txHash r = bt_txHash tx) db
      then Inl ''UNIQUE constraint failed: bridge_transactions.txHash''
      else Inr (Suc (length db), db @ [tx\<lparr> bt_id := Some (Suc (length db)) \<rparr>]))"

definition getTransaction :: "database \<Rightarrow> string \<Rightarrow> BridgeTransaction option" where
  "getTransaction db txHash = find (\<lambda>r. bt_txHash r = txHash) db"

definition getPendingTransactions :: "database \<Rightarrow> BridgeTransaction list" where
  "getPendingTransactions db = sort_key bt_createdAt (filter (\<lambda>r. bt_status r = Pending) db)"

definition getProcessingTransactions :: "database \<Rightarrow> BridgeTransaction list" where
  "getProcessingTransactions db = sort_key bt_createdAt (filter (\<lambda>r. bt_status r = Processing) db)"

text \<open>The \<open>updates\<close> argument of \<open>updateTransactionStatus\<close>: \<open>None\<close> is a field left
  \<open>undefined\<close> (the column is not touched).\<close>

record updates =
  u_proof :: "bytes list option"
  u_merkleRoot :: "bytes option"
  u_destTxHash :: "string option"
  u_errorMessage :: "string option"

definition no_updates :: updates where
  "no_updates = \<lparr> u_proof = None, u_merkleRoot = None, u_destTxHash = None, u_errorMessage = None \<rparr>"

definition update_row :: "status \<Rightarrow> updates \<Rightarrow> int \<Rightarrow> BridgeTransaction \<Rightarrow> BridgeTransaction" where
  "update_row st upd now r =
     r\<lparr> bt_status := st, bt_updatedAt := now,
        bt_proof := (case u_proof upd of None \<Rightarrow> bt_proof r | Some v \<Rightarrow> Some v),
        bt_merkleRoot := (case u_merkleRoot upd of None \<Rightarrow> bt_merkleRoot r | Some v \<Rightarrow> Some v),
        bt_destTxHash := (case u_destTxHash upd of None \<Rightarrow> bt_destTxHash r | Some v \<Rightarrow> Some v),
        bt_errorMessage := (case u_errorMessage upd of None \<Rightarrow> bt_errorMessage r | Some v \<Rightarrow> Some v) \<rparr>"

definition updateTransactionStatus :: "database \<Rightarrow> string \<Rightarrow> status \<Rightarrow> updates \<Rightarrow> int \<Rightarrow> database" where
  "updateTransactionStatus db txHash st upd now =
     map (\<lambda>r. if bt_txHash r = txHash then update_row st upd now r else r) db"

text \<open>One write of the pipeline to the table, and its effect. A throwing insert
  leaves the table as it was.\<close>

datatype db_write =
    InsertTransaction BridgeTransaction
  | UpdateTransactionStatus string status updates int

fun apply_write :: "database \<Rightarrow> db_write \<Rightarrow> database" where
  "apply_write db (InsertTransaction row) =
     (case insertTransaction db row of Inl _ \<Rightarrow> db | Inr (_, db') \<Rightarrow> db')"
| "apply_write db (UpdateTransactionStatus txHash st upd now) =
     updateTransactionStatus db txHash st upd now"

fun apply_writes :: "database \<Rightarrow> db_write list \<Rightarrow> database" where
  "apply_writes db [] = db"
| "apply_writes db (w # ws) = apply_writes (apply_write db w) ws"

text \<open>The table after each write, in order.\<close>

fun db_trace :: "database \<Rightarrow> db_write list \<Rightarrow> database list" where
  "db_trace db [] = []"
| "db_trace db (w # ws) = apply_write db w # db_trace (apply_write db w) ws"

section \<open>relayer/src/eventListener.ts\<close>

text \<open>
  A decoded event with the hash of its transaction: addresses as strings, the
  \<open>uint256\<close> fields as bigints. \<open>Number(x)\<close> of a bigint is the nearest double (ties to
  even): the value itself up to 53 bits.
\<close>

record bridge_event =
  ev_txHash :: string
  ev_sender :: string
  ev_recipient :: string
  ev_amount :: uint256
  ev_nonce :: uint256
  ev_timestamp :: uint256
  ev_leafHash :: bytes32

fun bit_length :: "nat \<Rightarrow> nat" where
  "bit_length n = (if n = 0 then 0 else Suc (bit_length (n div 2)))"

declare bit_length.simps [simp del]

definition Number_of_bigint :: "nat \<Rightarrow> int" where
  "Number_of_bigint n =
     (let len = bit_length n in
      if len \<le> 53 then int n
      else let sh = len - 53; q = n div 2 ^ sh; r = n mod 2 ^ sh; half = 2 ^ (sh - 1);
               q' = (if r > half \<or> (r = half \<and> odd q) then q + 1 else q)
           in int (q' * 2 ^ sh))"

definition row_of_event :: "string \<Rightarrow> string \<Rightarrow> bridge_event \<Rightarrow> int \<Rightarrow> BridgeTransaction" where
  "row_of_event sourceChain destChain ev now =
     \<lparr> bt_id = None, bt_txHash = ev_txHash ev,
       bt_sourceChain = sourceChain, bt_destChain = destChain,
       bt_sender = ev_sender ev, bt_recipient = ev_recipient ev,
       bt_amount = int (unat (ev_amount ev)),
       bt_nonce = Number_of_bigint (unat (ev_nonce ev)),
       bt_timestamp = Number_of_bigint (unat (ev_timestamp ev)),
       bt_leafHash = ev_leafHash ev,
       bt_proof = None, bt_merkleRoot = None, bt_status = Pending,
       bt_destTxHash = None, bt_errorMessage = None,
       bt_createdAt = now, bt_updatedAt = now \<rparr>"

text \<open>The callback of \<open>listenToSepoliaEvents\<close> (\<open>BridgingInitiated\<close>) and of
  \<open>listenToamoyEvents\<close> (\<open>TokensBurned\<close>): wait for the confirmations (\<open>confirmed\<close> is
  false when \<open>waitForConfirmations\<close> throws), return if the transaction hash is already
  stored, insert the row otherwise. No field of the event is examined. The result is
  the writes the callback issues.\<close>

definition onEvent :: "string \<Rightarrow> string \<Rightarrow> database \<Rightarrow> bridge_event \<Rightarrow> bool \<Rightarrow> int \<Rightarrow> db_write list" where
  "onEvent sourceChain destChain db ev confirmed now =
     (if \<not> confirmed then []
      else case getTransaction db (ev_txHash ev) of
             Some existingTx \<Rightarrow> []
           | None \<Rightarrow> [InsertTransaction (row_of_event sourceChain destChain ev now)])"

definition onBridgingInitiated :: "database \<Rightarrow> bridge_event \<Rightarrow> bool \<Rightarrow> int \<Rightarrow> db_write list" where
  "onBridgingInitiated = onEvent ''sepolia'' ''amoy''"

definition onTokensBurned :: "database \<Rightarrow> bridge_event \<Rightarrow> bool \<Rightarrow> int \<Rightarrow> db_write list" where
  "onTokensBurned = onEvent ''amoy'' ''sepolia''"

text \<open>\<open>processHistoricalEvents\<close>: the events of the last blocks, Sepolia first, each
  inserted unless its transaction hash is stored (no wait for confirmations).\<close>

fun historical_loop :: "string \<Rightarrow> string \<Rightarrow> database \<Rightarrow> bridge_event list \<Rightarrow> int \<Rightarrow> db_write list" where
  "historical_loop sourceChain destChain db [] now = []"
| "historical_loop sourceChain destChain db (ev # evs) now =
     (let ws = onEvent sourceChain destChain db ev True now
      in ws @ historical_loop sourceChain destChain (apply_writes db ws) evs now)"

definition processHistoricalEvents ::
  "database \<Rightarrow> bridge_event list \<Rightarrow> bridge_event list \<Rightarrow> int \<Rightarrow> db_write list" where
  "processHistoricalEvents db sepoliaEvents amoyEvents now =
     (let ws = historical_loop ''sepolia'' ''amoy'' db sepoliaEvents now
      in ws @ historical_loop ''amoy'' ''sepolia'' (apply_writes db ws) amoyEvents now)"

section \<open>relayer/src/transactionSubmitter.ts\<close>

text \<open>
  What the destination chain answers is outside the relayer: \<open>rpc\<close> gives, for each
  remote call, either the message of the error it throws (\<open>Inl\<close>) or its result.
  \<open>relayer_call\<close> is a transaction the relayer sends.
\<close>

record rpc =
  rpc_validRoots :: "string \<Rightarrow> bytes \<Rightarrow> string + bool"
  rpc_registerRoot :: "string \<Rightarrow> bytes \<Rightarrow> string + string"
  rpc_mint :: "BridgeTransaction \<Rightarrow> bytes list \<Rightarrow> bytes \<Rightarrow> string + string"
  rpc_unlock :: "BridgeTransaction \<Rightarrow> bytes list \<Rightarrow> bytes \<Rightarrow> string + string"

datatype relayer_call =
    SendRegisterRoot string bytes
  | SendMint BridgeTransaction "bytes list" bytes
  | SendUnlock BridgeTransaction "bytes list" bytes

definition sepolia_chainId :: int where
  "sepolia_chainId = 11155111"

definition amoy_chainId :: int where
  "amoy_chainId = 80002"

text \<open>\<open>generateProofForTransaction\<close>: a tree of this one transaction.\<close>

definition transaction_of_row :: "BridgeTransaction \<Rightarrow> Transaction" where
  "transaction_of_row tx =
     \<lparr> tx_sender = bt_sender tx, tx_recipient = bt_recipient tx,
       tx_amount = bt_amount tx, tx_nonce = bt_nonce tx,
       tx_sourceChainId = (if bt_sourceChain tx = ''sepolia'' then sepolia_chainId else amoy_chainId),
       tx_destinationChainId = (if bt_destChain tx = ''amoy'' then amoy_chainId else sepolia_chainId),
       tx_timestamp = bt_timestamp tx \<rparr>"

definition generateProofForTransaction :: "hashfn \<Rightarrow> BridgeTransaction \<Rightarrow> ProofAndRoot" where
  "generateProofForTransaction keccak256 tx =
     generateProof keccak256 [transaction_of_row tx] (transaction_of_row tx)"

text \<open>\<open>ensureRootRegistered\<close>: the error thrown, if any, and the transactions sent.\<close>

definition ensureRootRegistered :: "rpc \<Rightarrow> bytes \<Rightarrow> string \<Rightarrow> string option \<times> relayer_call list" where
  "ensureRootRegistered chain root destChain =
     (case rpc_validRoots chain destChain root of
        Inl msg \<Rightarrow> (Some msg, [])
      | Inr True \<Rightarrow> (None, [])
      | Inr False \<Rightarrow>
          (case rpc_registerRoot chain destChain root of
             Inl msg \<Rightarrow> (Some msg, [SendRegisterRoot destChain root])
           | Inr receipt \<Rightarrow> (None, [SendRegisterRoot destChain root])))"

definition submitToDestinationChain ::
  "rpc \<Rightarrow> BridgeTransaction \<Rightarrow> bytes list \<Rightarrow> bytes \<Rightarrow> (string + string) \<times> relayer_call list" where
  "submitToDestinationChain chain tx proof root =
     (if bt_destChain tx = ''amoy''
      then (rpc_mint chain tx proof root, [SendMint tx proof root])
      else (rpc_unlock chain tx proof root, [SendUnlock tx proof root]))"

text \<open>\<open>processTransaction\<close> first writes \<open>processing\<close> twice (the second time with
  proof and root); these are the writes done when the destination call is made.\<close>

definition processing_writes :: "hashfn \<Rightarrow> int \<Rightarrow> BridgeTransaction \<Rightarrow> db_write list" where
  "processing_writes keccak256 now tx =
     (let pr = generateProofForTransaction keccak256 tx
      in [UpdateTransactionStatus (bt_txHash tx) Processing no_updates now,
          UpdateTransactionStatus (bt_txHash tx) Processing
            (no_updates\<lparr> u_proof := Some (pr_proof pr), u_merkleRoot := Some (pr_root pr) \<rparr>) now])"

text \<open>\<open>processTransaction\<close>: its writes, the transactions it sends, and the error it
  throws, if any.\<close>

definition processTransaction ::
  "hashfn \<Rightarrow> rpc \<Rightarrow> int \<Rightarrow> BridgeTransaction \<Rightarrow> db_write list \<times> relayer_call list \<times> string option" where
  "processTransaction keccak256 chain now tx =
     (let pr = generateProofForTransaction keccak256 tx;
          ws = processing_writes keccak256 now tx
      in case ensureRootRegistered chain (pr_root pr) (bt_destChain tx) of
           (Some msg, sent) \<Rightarrow> (ws, sent, Some msg)
         | (None, sent) \<Rightarrow>
             (case submitToDestinationChain chain tx (pr_proof pr) (pr_root pr) of
                (Inl msg, sent') \<Rightarrow> (ws, sent @ sent', Some msg)
              | (Inr destTxHash, sent') \<Rightarrow>
                  (ws @ [UpdateTransactionStatus (bt_txHash tx) Completed
                           (no_updates\<lparr> u_destTxHash := Some destTxHash \<rparr>) now],
                   sent @ sent', None)))"

text \<open>The body of the loop of \<open>processPendingTransactions\<close>: a thrown error is caught
  and the transaction is marked \<open>failed\<close> with its message.\<close>

definition process_or_fail ::
  "hashfn \<Rightarrow> rpc \<Rightarrow> int \<Rightarrow> BridgeTransaction \<Rightarrow> db_write list \<times> relayer_call list" where
  "process_or_fail keccak256 chain now tx =
     (case processTransaction keccak256 chain now tx of
        (ws, sent, None) \<Rightarrow> (ws, sent)
      | (ws, sent, Some msg) \<Rightarrow>
          (ws @ [UpdateTransactionStatus (bt_txHash tx) Failed
                   (no_updates\<lparr> u_errorMessage := Some msg \<rparr>) now],
           sent))"

fun pending_loop ::
  "hashfn \<Rightarrow> rpc \<Rightarrow> int \<Rightarrow> BridgeTransaction list \<Rightarrow> db_write list \<times> relayer_call list" where
  "pending_loop keccak256 chain now [] = ([], [])"
| "pending_loop keccak256 chain now (tx # txs) =
     (let (ws, sent) = process_or_fail keccak256 chain now tx;
          (ws', sent') = pending_loop keccak256 chain now txs
      in (ws @ ws', sent @ sent'))"

definition processPendingTransactions ::
  "hashfn \<Rightarrow> rpc \<Rightarrow> int \<Rightarrow> database \<Rightarrow> db_write list \<times> relayer_call list" where
  "processPendingTransactions keccak256 chain now db =
     pending_loop keccak256 chain now (getPendingTransactions db)"

section \<open>The relay pipeline\<close>

text \<open>An operation of the pipeline: a live event of either chain reaching its
  callback, the historical scan at start, or one round of the submitter's loop.\<close>

datatype pipeline_op =
    ObserveLock bridge_event bool int
  | ObserveBurn bridge_event bool int
  | Historical "bridge_event list" "bridge_event list" int
  | Poll rpc int

fun op_writes :: "hashfn \<Rightarrow> database \<Rightarrow> pipeline_op \<Rightarrow> db_write list" where
  "op_writes keccak256 db (ObserveLock ev confirmed now) = onBridgingInitiated db ev confirmed now"
| "op_writes keccak256 db (ObserveBurn ev confirmed now) = onTokensBurned db ev confirmed now"
| "op_writes keccak256 db (Historical sepoliaEvents amoyEvents now) =
     processHistoricalEvents db sepoliaEvents amoyEvents now"
| "op_writes keccak256 db (Poll chain now) = fst (processPendingTransactions keccak256 chain now db)"


fun pipeline_run :: "hashfn \<Rightarrow> database \<Rightarrow> pipeline_op list \<Rightarrow> database" where
  "pipeline_run keccak256 db [] = db"
| "pipeline_run keccak256 db (op # ops) =
     pipeline_run keccak256 (apply_writes db (op_writes keccak256 db op)) ops"

text \<open>The transactions the relayer sends in an operation, and in a run.\<close>

fun op_sent :: "hashfn \<Rightarrow> database \<Rightarrow> pipeline_op \<Rightarrow> relayer_call list" where
  "op_sent keccak256 db (Poll chain now) = snd (processPendingTransactions keccak256 chain now db)"
| "op_sent keccak256 db (ObserveLock ev confirmed now) = []"
| "op_sent keccak256 db (ObserveBurn ev confirmed now) = []"
| "op_sent keccak256 db (Historical sepoliaEvents amoyEvents now) = []"

fun pipeline_sent :: "hashfn \<Rightarrow> database \<Rightarrow> pipeline_op list \<Rightarrow> relayer_call list" where
  "pipeline_sent keccak256 db [] = []"
| "pipeline_sent keccak256 db (op # ops) =
     op_sent keccak256 db op @
     pipeline_sent keccak256 (apply_writes db (op_writes keccak256 db op)) ops"

text \<open>The status lifecycle: a write may leave a status as it is, take \<open>pending\<close> to
  \<open>processing\<close>, or take \<open>processing\<close> to \<open>completed\<close> or \<open>failed\<close>.\<close>

definition status_of :: "database \<Rightarrow> string \<Rightarrow> status option" where
  "status_of db txHash = map_option bt_status (getTransaction db txHash)"

definition status_edge :: "status \<Rightarrow> status \<Rightarrow> bool" where
  "status_edge s s' =
     (s = s' \<or> (s = Pending \<and> s' = Processing) \<or>
      (s = Processing \<and> (s' = Completed \<or> s' = Failed)))"

definition forward :: "database \<Rightarrow> database \<Rightarrow> bool" where
  "forward db db' =
     (\<forall>txHash s. status_of db txHash = Some s \<longrightarrow>
        (\<exists>s'. status_of db' txHash = Some s' \<and> status_edge s s'))"

fun all_adjacent :: "('a \<Rightarrow> 'a \<Rightarrow> bool) \<Rightarrow> 'a list \<Rightarrow> bool" where
  "all_adjacent P (x # y # rest) = (P x y \<and> all_adjacent P (y # rest))"
| "all_adjacent P _ = True"

text \<open>Proof vocabulary for the lifecycle: the transfer a write addresses, and a
  sequence of writes each of which follows an edge of the lifecycle at the moment it
  is applied.\<close>

fun write_target :: "db_write \<Rightarrow> string" where
  "write_target (InsertTransaction row) = bt_txHash row"
| "write_target (UpdateTransactionStatus txHash st upd now) = txHash"

fun legal_write :: "database \<Rightarrow> db_write \<Rightarrow> bool" where
  "legal_write db (InsertTransaction row) = True"
| "legal_write db (UpdateTransactionStatus txHash st upd now) =
     (case status_of db txHash of None \<Rightarrow> True | Some s \<Rightarrow> status_edge s st)"

fun legal_seq :: "database \<Rightarrow> db_write list \<Rightarrow> bool" where
  "legal_seq db [] = True"
| "legal_seq db (w # ws) = (legal_write db w \<and> legal_seq (apply_write db w) ws)"

text \<open>Whether a sent transaction is the destination operation of a given transfer.\<close>

fun submits :: "string \<Rightarrow> relayer_call \<Rightarrow> bool" where
  "submits txHash (SendMint tx proof root) = (bt_txHash tx = txHash)"
| "submits txHash (SendUnlock tx proof root) = (bt_txHash tx = txHash)"
| "submits txHash (SendRegisterRoot destChain root) = False"

section \<open>Concrete runs used in the closed examples\<close>

text \<open>
  A closed example needs a concrete hash function. \<open>sample_hash\<close> is a polynomial
  hash modulo a prime: it stands in for \<open>keccak256\<close> in examples only, and the
  general theorems hold for every hash function.
\<close>

definition sample_hash :: hashfn where
  "sample_hash bs = of_nat (foldl (\<lambda>acc b. (acc * 257 + unat b + 1) mod 1000003) 0 bs)"

text \<open>The validator deployed by account 1 at time 1000 with relayer 2; the relayer
  registers the root of the one-leaf tree of transfer
  \<open>(3, 4, 0.001 ether, nonce 1, 11155111, 80002, 1000)\<close>; account 7 has it validated; the owner
  pauses.\<close>

definition ex_deploy :: env where
  "ex_deploy = \<lparr> msg_sender = 1, block_timestamp = 1000 \<rparr>"

definition ex_relayer_call :: env where
  "ex_relayer_call = \<lparr> msg_sender = 2, block_timestamp = 1060 \<rparr>"

definition ex_user_call :: env where
  "ex_user_call = \<lparr> msg_sender = 7, block_timestamp = 1100 \<rparr>"

definition ex_owner_call :: env where
  "ex_owner_call = \<lparr> msg_sender = 1, block_timestamp = 1110 \<rparr>"

definition ex_relayer_call2 :: env where
  "ex_relayer_call2 = \<lparr> msg_sender = 2, block_timestamp = 1120 \<rparr>"

definition ex_leaf :: bytes32 where
  "ex_leaf = MessageLib_generateLeafHash sample_hash 3 4 1000000000000000 1 11155111 80002 1000"

definition ex_leaf2 :: bytes32 where
  "ex_leaf2 = MessageLib_generateLeafHash sample_hash 3 4 1000000000000000 2 11155111 80002 1000"

definition ex_validate :: validator_call where
  "ex_validate = ValidateTransaction 3 4 1000000000000000 1 11155111 80002 1000 [] ex_leaf"

definition ex_registered :: validator_state where
  "ex_registered =
     validator_run sample_hash (validator_init ex_deploy 2) [(ex_relayer_call, RegisterRoot ex_leaf)]"

definition ex_consumed :: validator_state where
  "ex_consumed = validator_run sample_hash ex_registered [(ex_user_call, ex_validate)]"

definition ex_paused :: validator_state where
  "ex_paused = validator_run sample_hash ex_consumed [(ex_owner_call, Pause)]"














text \<open>The relay pipeline: the lock event of the example transfer (transaction
  \<open>0xaa\<close>), a destination chain on which every call succeeds, and a malformed event
  (zero recipient, zero amount; transaction \<open>0xbb\<close>).\<close>

definition ex_event :: bridge_event where
  "ex_event = \<lparr> ev_txHash = ''0xaa'',
                ev_sender = ''0x0000000000000000000000000000000000000003'',
                ev_recipient = ''0x0000000000000000000000000000000000000004'',
                ev_amount = 1000000000000000, ev_nonce = 1, ev_timestamp = 1000,
                ev_leafHash = ex_leaf \<rparr>"



definition ex_chain :: rpc where
  "ex_chain = \<lparr> rpc_validRoots = (\<lambda>destChain root. Inr True),
                rpc_registerRoot = (\<lambda>destChain root. Inr ''0xcc''),
                rpc_mint = (\<lambda>tx proof root. Inr ''0xdd''),
                rpc_unlock = (\<lambda>tx proof root. Inr ''0xee'') \<rparr>"

definition ex_db_pending :: database where
  "ex_db_pending = apply_writes [] (onBridgingInitiated [] ex_event True 5000)"

text \<open>The table when the relayer dies after \<open>mint\<close> settled and before the \<open>completed\<close>
  write: only the two \<open>processing\<close> writes of \<open>processTransaction\<close> were done.\<close>

definition ex_db_crashed :: database where
  "ex_db_crashed =
     apply_writes ex_db_pending
       (processing_writes sample_hash 6000 (row_of_event ''sepolia'' ''amoy'' ex_event 5000))"


definition ex_restart :: "pipeline_op list" where
  "ex_restart = [Historical [ex_event] [] 7000, Poll ex_chain 8000]"



section \<open>Evaluation lemmas\<close>


lemmas ex_envs =
  ex_deploy_def ex_relayer_call_def ex_user_call_def ex_owner_call_def ex_relayer_call2_def

lemma ex_registered_eq:
  "ex_registered =
     (validator_init ex_deploy 2)\<lparr> validRoots := (\<lambda>_. False)(ex_leaf := True), lastRootUpdate := 1060 \<rparr>"
  by (simp add: ex_registered_def registerRoot_def state_after_def validator_init_def ex_envs
      checked_add_def MIN_ROOT_UPDATE_DELAY_def)

lemma ex_consumed_eq:
  "ex_consumed = ex_registered\<lparr> usedNonces := (\<lambda>_. False)(1 := True), validatedTransactions := 1 \<rparr>"
  by (simp add: ex_consumed_def ex_validate_def ex_registered_eq validateTransaction_def
      state_after_ret_def validator_init_def ex_envs checked_add_def MerkleProof_verify_def
      ex_leaf_def [symmetric])

lemma ex_paused_eq: "ex_paused = ex_consumed\<lparr> v_paused := True \<rparr>"
  by (simp add: ex_paused_def ex_consumed_eq ex_registered_eq validator_pause_def state_after_def
      validator_init_def ex_envs)

section \<open>The validator: replay, duplicate roots, root invalidation\<close>

lemma registerRoot_ok:
  assumes "msg_sender e = relayer s" "\<not> v_paused s"
    and "unat (lastRootUpdate s) + 60 \<le> unat (block_timestamp e)"
  shows "registerRoot e s root =
     Inr (s\<lparr> validRoots := (validRoots s)(root := True), lastRootUpdate := block_timestamp e \<rparr>)"
proof -
  have lt: "unat (block_timestamp e) < 2 ^ 256"
    using unsigned_less [of "block_timestamp e", where 'a = nat] by simp
  from assms(3) lt have ca: "checked_add (lastRootUpdate s) 60 = Some (lastRootUpdate s + 60)"
    by (simp add: checked_add_def)
  from assms(3) lt have "unat (lastRootUpdate s + 60) = unat (lastRootUpdate s) + 60"
    by (simp add: unat_word_ariths)
  with assms(3) have "\<not> block_timestamp e < lastRootUpdate s + 60"
    by (simp add: word_less_nat_alt)
  with assms(1,2) ca show ?thesis
    by (simp add: registerRoot_def MIN_ROOT_UPDATE_DELAY_def)
qed

lemma usedNonces_step:
  "usedNonces s n \<Longrightarrow> usedNonces (validator_step keccak256 e s c) n"
  by (cases c)
     (auto simp: state_after_def state_after_ret_def registerRoot_def validateTransaction_def
        updateRelayer_def validator_pause_def validator_unpause_def batchRegisterRoots_def
        invalidateRoot_def Let_def split: option.splits)

lemma usedNonces_run:
  "usedNonces s n \<Longrightarrow> usedNonces (validator_run keccak256 s cs) n"
proof (induction cs arbitrary: s)
  case Nil
  then show ?case by simp
next
  case (Cons c cs)
  obtain e call where c: "c = (e, call)" by (cases c)
  from Cons.prems have "usedNonces (validator_step keccak256 e s call) n"
    by (rule usedNonces_step)
  then show ?case unfolding c by (simp add: Cons.IH)
qed

text \<open>
  C3 (as amended). In a state where nonce \<open>n\<close> is recorded in \<open>usedNonces\<close>, every
  call of \<open>validateTransaction\<close> with nonce \<open>n\<close> reverts, whatever the sender,
  recipient, amount, chain ids, timestamp, proof and root: with
  \<open>NonceAlreadyUsed(n)\<close> when the contract is not paused, with \<open>EnforcedPause\<close> when it
  is (the \<open>whenNotPaused\<close> modifier runs before the body). The state after the call
  is the state before it.
\<close>

theorem C3_used_nonce_rejected:
  "usedNonces s nonce \<Longrightarrow>
   validateTransaction keccak256 e s sender recipient amount nonce src dst ts proof root =
     Inl (if v_paused s then EnforcedPause else NonceAlreadyUsed nonce) \<and>
   validator_step keccak256 e s
     (ValidateTransaction sender recipient amount nonce src dst ts proof root) = s"
  by (simp add: validateTransaction_def state_after_ret_def)

theorem C3_used_nonce_rejected_witness:
  "usedNonces ex_consumed 1 \<and>
   validateTransaction sample_hash ex_user_call ex_consumed 3 4 1000000000000000 1 11155111 80002 1000 [] ex_leaf =
     Inl (if v_paused ex_consumed then EnforcedPause else NonceAlreadyUsed 1) \<and>
   validator_step sample_hash ex_user_call ex_consumed
     (ValidateTransaction 3 4 1000000000000000 1 11155111 80002 1000 [] ex_leaf) = ex_consumed"
proof -
  have h: "usedNonces ex_consumed 1" by (simp add: ex_consumed_eq)
  show ?thesis using h C3_used_nonce_rejected [OF h] by blast
qed

text \<open>
  C3 as stated fails in a paused validator: after deploy, register, validate
  (nonce 1 consumed) and pause, a second \<open>validateTransaction\<close> with nonce 1 does not
  revert with \<open>NonceAlreadyUsed\<close>.
\<close>

theorem C3_counterexample:
  "usedNonces ex_paused 1 \<and>
   validateTransaction sample_hash ex_user_call ex_paused 3 4 1000000000000000 1 11155111 80002 1000 [] ex_leaf
     \<noteq> Inl (NonceAlreadyUsed 1)"
  by (simp add: ex_paused_eq ex_consumed_eq ex_registered_eq validateTransaction_def)

text \<open>
  C4. The claim is that \<open>registerRoot\<close> rejects a root that is already valid. The
  code has no such check: once the one-minute delay has passed, the relayer's second
  \<open>registerRoot\<close> of the same root succeeds and only moves \<open>lastRootUpdate\<close>.
\<close>

theorem C4_duplicate_root_accepted:
  "validRoots ex_registered ex_leaf \<and>
   registerRoot ex_relayer_call2 ex_registered ex_leaf =
     Inr (ex_registered\<lparr> lastRootUpdate := 1120 \<rparr>)"
  by (simp add: ex_registered_eq registerRoot_def validator_init_def ex_envs checked_add_def
      MIN_ROOT_UPDATE_DELAY_def)

text \<open>
  C10. Root validity is not monotone, nonce consumption is. From any unpaused state
  in which the relayer may register (the delay has passed), \<open>registerRoot r\<close> makes
  \<open>isRootValid r\<close> true, the owner's \<open>invalidateRoot r\<close> makes it false again, and in
  the state reached \<open>validateTransaction\<close> reverts for every proof against \<open>r\<close>. No
  sequence of validator calls clears an entry of \<open>usedNonces\<close>.
\<close>

theorem C10_root_validity_not_monotone:
  assumes "msg_sender e1 = relayer s" and "\<not> v_paused s"
    and "unat (lastRootUpdate s) + 60 \<le> unat (block_timestamp e1)"
    and "msg_sender e2 = v_owner s"
  shows "isRootValid (validator_run keccak256 s [(e1, RegisterRoot r)]) r \<and>
         \<not> isRootValid (validator_run keccak256 s [(e1, RegisterRoot r), (e2, InvalidateRoot r)]) r \<and>
         (\<forall>e sender recipient amount nonce src dst ts proof.
            \<exists>err. validateTransaction keccak256 e
                    (validator_run keccak256 s [(e1, RegisterRoot r), (e2, InvalidateRoot r)])
                    sender recipient amount nonce src dst ts proof r = Inl err) \<and>
         (\<forall>e sender recipient amount nonce src dst ts proof.
            (\<exists>ok. validateTransaction keccak256 e (validator_run keccak256 s [(e1, RegisterRoot r)])
                    sender recipient amount nonce src dst ts proof r = Inr ok) \<longrightarrow>
            validateTransaction keccak256 e
                    (validator_run keccak256 s [(e1, RegisterRoot r), (e2, InvalidateRoot r)])
                    sender recipient amount nonce src dst ts proof r = Inl InvalidRoot) \<and>
         (\<forall>cs n. usedNonces s n \<longrightarrow> usedNonces (validator_run keccak256 s cs) n)"
proof -
  let ?s1 = "s\<lparr> validRoots := (validRoots s)(r := True), lastRootUpdate := block_timestamp e1 \<rparr>"
  have r1: "validator_run keccak256 s [(e1, RegisterRoot r)] = ?s1"
    using registerRoot_ok [OF assms(1,2,3), of r] by (simp add: state_after_def)
  have r2: "validator_run keccak256 s [(e1, RegisterRoot r), (e2, InvalidateRoot r)] =
              ?s1\<lparr> validRoots := (validRoots ?s1)(r := False) \<rparr>"
    using registerRoot_ok [OF assms(1,2,3), of r] assms(4)
    by (simp add: state_after_def invalidateRoot_def)
  have a: "isRootValid (validator_run keccak256 s [(e1, RegisterRoot r)]) r"
    unfolding r1 by (simp add: isRootValid_def)
  have b: "\<not> isRootValid (validator_run keccak256 s [(e1, RegisterRoot r), (e2, InvalidateRoot r)]) r"
    unfolding r2 by (simp add: isRootValid_def)
  have c: "\<exists>err. validateTransaction keccak256 e
                    (validator_run keccak256 s [(e1, RegisterRoot r), (e2, InvalidateRoot r)])
                    sender recipient amount nonce src dst ts proof r = Inl err"
    for e sender recipient amount nonce src dst ts "proof"
    unfolding r2 by (simp add: validateTransaction_def)
  have d: "validateTransaction keccak256 e
                    (validator_run keccak256 s [(e1, RegisterRoot r), (e2, InvalidateRoot r)])
                    sender recipient amount nonce src dst ts proof r = Inl InvalidRoot"
    if "validateTransaction keccak256 e (validator_run keccak256 s [(e1, RegisterRoot r)])
                    sender recipient amount nonce src dst ts proof r = Inr ok"
    for e sender recipient amount nonce src dst ts "proof" ok
    using that unfolding r1 r2 by (simp add: validateTransaction_def split: if_splits)
  have m: "usedNonces s n \<longrightarrow> usedNonces (validator_run keccak256 s cs) n" for cs n
    by (simp add: usedNonces_run)
  have d': "(\<exists>ok. validateTransaction keccak256 e (validator_run keccak256 s [(e1, RegisterRoot r)])
                    sender recipient amount nonce src dst ts proof r = Inr ok) \<longrightarrow>
            validateTransaction keccak256 e
                    (validator_run keccak256 s [(e1, RegisterRoot r), (e2, InvalidateRoot r)])
                    sender recipient amount nonce src dst ts proof r = Inl InvalidRoot"
    for e sender recipient amount nonce src dst ts "proof"
    using d by blast
  show ?thesis
    by (intro conjI allI) (rule a, rule b, rule c, rule d', rule m)
qed

theorem C10_root_validity_not_monotone_witness:
  "msg_sender ex_relayer_call2 = relayer ex_consumed \<and>
   \<not> v_paused ex_consumed \<and>
   unat (lastRootUpdate ex_consumed) + 60 \<le> unat (block_timestamp ex_relayer_call2) \<and>
   msg_sender ex_owner_call = v_owner ex_consumed \<and>
   isRootValid (validator_run sample_hash ex_consumed [(ex_relayer_call2, RegisterRoot ex_leaf2)]) ex_leaf2 \<and>
   \<not> isRootValid (validator_run sample_hash ex_consumed
         [(ex_relayer_call2, RegisterRoot ex_leaf2), (ex_owner_call, InvalidateRoot ex_leaf2)]) ex_leaf2 \<and>
   (\<exists>ok. validateTransaction sample_hash ex_user_call
            (validator_run sample_hash ex_consumed [(ex_relayer_call2, RegisterRoot ex_leaf2)])
            3 4 1000000000000000 2 11155111 80002 1000 [] ex_leaf2 = Inr ok) \<and>
   validateTransaction sample_hash ex_user_call
     (validator_run sample_hash ex_consumed
        [(ex_relayer_call2, RegisterRoot ex_leaf2), (ex_owner_call, InvalidateRoot ex_leaf2)])
     3 4 1000000000000000 2 11155111 80002 1000 [] ex_leaf2 = Inl InvalidRoot \<and>
   usedNonces ex_consumed 1 \<and>
   usedNonces (validator_run sample_hash ex_consumed
        [(ex_relayer_call2, RegisterRoot ex_leaf2), (ex_owner_call, InvalidateRoot ex_leaf2)]) 1"
proof -
  have h1: "msg_sender ex_relayer_call2 = relayer ex_consumed"
    by (simp add: ex_consumed_eq ex_registered_eq validator_init_def ex_envs)
  have h2: "\<not> v_paused ex_consumed"
    by (simp add: ex_consumed_eq ex_registered_eq validator_init_def)
  have h3: "unat (lastRootUpdate ex_consumed) + 60 \<le> unat (block_timestamp ex_relayer_call2)"
    by (simp add: ex_consumed_eq ex_registered_eq validator_init_def ex_envs)
  have h4: "msg_sender ex_owner_call = v_owner ex_consumed"
    by (simp add: ex_consumed_eq ex_registered_eq validator_init_def ex_envs)
  have u: "usedNonces ex_consumed 1"
    by (simp add: ex_consumed_eq)
  have s1: "validator_run sample_hash ex_consumed [(ex_relayer_call2, RegisterRoot ex_leaf2)] =
            ex_consumed\<lparr> validRoots := (validRoots ex_consumed)(ex_leaf2 := True),
                              lastRootUpdate := block_timestamp ex_relayer_call2 \<rparr>"
    using registerRoot_ok [OF h1 h2 h3, of ex_leaf2] by (simp add: state_after_def)
  have "validateTransaction sample_hash ex_user_call
            (validator_run sample_hash ex_consumed [(ex_relayer_call2, RegisterRoot ex_leaf2)])
            3 4 1000000000000000 2 11155111 80002 1000 [] ex_leaf2 =
          Inr (True, (validator_run sample_hash ex_consumed [(ex_relayer_call2, RegisterRoot ex_leaf2)])
                 \<lparr> usedNonces := (usedNonces ex_consumed)(2 := True), validatedTransactions := 2 \<rparr>)"
    unfolding s1
    by (simp add: validateTransaction_def ex_consumed_eq ex_registered_eq validator_init_def
        checked_add_def MerkleProof_verify_def ex_leaf2_def [symmetric])
  then have acc: "\<exists>ok. validateTransaction sample_hash ex_user_call
            (validator_run sample_hash ex_consumed [(ex_relayer_call2, RegisterRoot ex_leaf2)])
            3 4 1000000000000000 2 11155111 80002 1000 [] ex_leaf2 = Inr ok"
    by (rule exI)
  show ?thesis
    using h1 h2 h3 h4 u acc
      C10_root_validity_not_monotone [OF h1 h2 h3 h4, of sample_hash ex_leaf2]
    by blast
qed

section \<open>Nonce consumption and the value-changing effect\<close>





























section \<open>The leaf digest of the relayer and of the contracts\<close>



lemma hex_value_Nil [simp]: "hex_value [] = 0"
  by (simp add: hex_value_def)





























section \<open>Inclusion proofs verify\<close>



































section \<open>Batch proofs\<close>


















section \<open>The event observer\<close>

lemma getTransaction_Nil [simp]: "getTransaction [] h = None"
  by (simp add: getTransaction_def)

lemma getTransaction_snoc:
  "getTransaction (db @ [r]) h =
     (case getTransaction db h of Some x \<Rightarrow> Some x | None \<Rightarrow> if bt_txHash r = h then Some r else None)"
  by (induction db) (simp_all add: getTransaction_def)

lemma getTransaction_None_iff: "getTransaction db h = None \<longleftrightarrow> \<not> list_ex (\<lambda>r. bt_txHash r = h) db"
  by (induction db) (simp_all add: getTransaction_def)

lemma getTransaction_Some: "getTransaction db h = Some r \<Longrightarrow> r \<in> set db \<and> bt_txHash r = h"
  by (induction db) (auto simp: getTransaction_def split: if_splits)

lemma apply_insert:
  "apply_write db (InsertTransaction row) =
     (if getTransaction db (bt_txHash row) = None
      then db @ [row\<lparr> bt_id := Some (Suc (length db)) \<rparr>] else db)"
  by (simp add: insertTransaction_def getTransaction_None_iff)






section \<open>The status lifecycle\<close>

lemma bt_txHash_update_row [simp]: "bt_txHash (update_row st upd now r) = bt_txHash r"
  by (simp add: update_row_def)

lemma bt_status_update_row [simp]: "bt_status (update_row st upd now r) = st"
  by (simp add: update_row_def)

lemma getTransaction_update:
  "getTransaction (updateTransactionStatus db h st upd now) h' =
     (if h' = h then map_option (update_row st upd now) (getTransaction db h)
      else getTransaction db h')"
  by (induction db) (auto simp add: getTransaction_def updateTransactionStatus_def)

lemma status_of_update:
  "status_of (apply_write db (UpdateTransactionStatus h st upd now)) h' =
     (if h' = h then map_option (\<lambda>_. st) (status_of db h) else status_of db h')"
  by (simp add: status_of_def getTransaction_update option.map_comp comp_def)

lemma status_of_insert:
  "status_of (apply_write db (InsertTransaction row)) h =
     (case status_of db h of Some s \<Rightarrow> Some s
      | None \<Rightarrow> if bt_txHash row = h then Some (bt_status row) else None)"
  by (auto simp add: apply_insert status_of_def getTransaction_snoc simp del: apply_write.simps
      split: option.splits)

lemma status_edge_refl [simp]: "status_edge s s"
  by (simp add: status_edge_def)

lemma legal_forward: "legal_write db w \<Longrightarrow> forward db (apply_write db w)"
proof (cases w)
  case (InsertTransaction row)
  show ?thesis unfolding forward_def InsertTransaction
    by (simp add: status_of_insert del: apply_write.simps)
next
  case (UpdateTransactionStatus h st upd now)
  assume "legal_write db w"
  then show ?thesis unfolding forward_def UpdateTransactionStatus
    by (auto simp add: status_of_update simp del: apply_write.simps)
qed

lemma legal_seq_trace: "legal_seq db ws \<Longrightarrow> all_adjacent forward (db # db_trace db ws)"
proof (induction ws arbitrary: db)
  case Nil
  show ?case by simp
next
  case (Cons w ws)
  from Cons.prems have l: "legal_write db w" and r: "legal_seq (apply_write db w) ws"
    by simp_all
  from legal_forward [OF l] Cons.IH [OF r] show ?case
    by (simp del: apply_write.simps)
qed



lemma apply_writes_append: "apply_writes db (ws @ ws') = apply_writes (apply_writes db ws) ws'"
  by (induction ws arbitrary: db) (simp_all del: apply_write.simps)

lemma legal_seq_append:
  "legal_seq db (ws @ ws') = (legal_seq db ws \<and> legal_seq (apply_writes db ws) ws')"
  by (induction ws arbitrary: db) (simp_all del: apply_write.simps)

lemma hashes_update [simp]:
  "map bt_txHash (updateTransactionStatus db h st upd now) = map bt_txHash db"
  by (simp add: updateTransactionStatus_def comp_def)

lemma distinct_apply_write:
  "distinct (map bt_txHash db) \<Longrightarrow> distinct (map bt_txHash (apply_write db w))"
proof (cases w)
  case (InsertTransaction row)
  assume d: "distinct (map bt_txHash db)"
  have "getTransaction db (bt_txHash row) = None \<Longrightarrow> bt_txHash row \<notin> bt_txHash ` set db"
    by (auto simp add: getTransaction_None_iff list_ex_iff)
  with d show ?thesis unfolding InsertTransaction
    by (simp add: apply_insert del: apply_write.simps)
next
  case (UpdateTransactionStatus h st upd now)
  assume "distinct (map bt_txHash db)"
  then show ?thesis unfolding UpdateTransactionStatus by simp
qed

lemma distinct_apply_writes:
  "distinct (map bt_txHash db) \<Longrightarrow> distinct (map bt_txHash (apply_writes db ws))"
  by (induction ws arbitrary: db) (simp_all add: distinct_apply_write del: apply_write.simps)


lemma onEvent_inserts:
  "w \<in> set (onEvent sourceChain destChain db ev confirmed now) \<Longrightarrow> \<exists>row. w = InsertTransaction row"
  by (auto simp add: onEvent_def split: if_splits option.splits)

lemma historical_loop_inserts:
  "w \<in> set (historical_loop sourceChain destChain db evs now) \<Longrightarrow> \<exists>row. w = InsertTransaction row"
proof (induction evs arbitrary: db)
  case Nil
  then show ?case by simp
next
  case (Cons ev evs)
  then show ?case
    by (auto simp add: Let_def dest: onEvent_inserts)
qed

lemma processHistoricalEvents_inserts:
  "w \<in> set (processHistoricalEvents db sepoliaEvents amoyEvents now) \<Longrightarrow> \<exists>row. w = InsertTransaction row"
  by (auto simp add: processHistoricalEvents_def Let_def dest: historical_loop_inserts)

lemma process_or_fail_shape:
  "\<exists>u1 u2 u3 T. fst (process_or_fail keccak256 chain now tx) =
      [UpdateTransactionStatus (bt_txHash tx) Processing u1 now,
       UpdateTransactionStatus (bt_txHash tx) Processing u2 now,
       UpdateTransactionStatus (bt_txHash tx) T u3 now] \<and> (T = Completed \<or> T = Failed)"
  by (auto simp add: process_or_fail_def processTransaction_def processing_writes_def Let_def
      split: prod.splits option.splits sum.splits)

lemma process_or_fail_sent:
  "c \<in> set (snd (process_or_fail keccak256 chain now tx)) \<Longrightarrow> submits h c \<Longrightarrow> bt_txHash tx = h"
  by (auto simp add: process_or_fail_def processTransaction_def ensureRootRegistered_def
      submitToDestinationChain_def Let_def
      split: prod.splits option.splits sum.splits if_splits bool.splits)

lemma pending_loop_Cons:
  "fst (pending_loop keccak256 chain now (tx # txs)) =
     fst (process_or_fail keccak256 chain now tx) @ fst (pending_loop keccak256 chain now txs)"
  "snd (pending_loop keccak256 chain now (tx # txs)) =
     snd (process_or_fail keccak256 chain now tx) @ snd (pending_loop keccak256 chain now txs)"
  by (simp_all add: Let_def split: prod.splits)

lemma three_writes_legal:
  assumes "status_of db h = Some Pending" and "T = Completed \<or> T = Failed"
  shows "legal_seq db [UpdateTransactionStatus h Processing u1 n1,
                       UpdateTransactionStatus h Processing u2 n2,
                       UpdateTransactionStatus h T u3 n3]"
  using assms by (auto simp add: status_of_update status_edge_def simp del: apply_write.simps)

lemma updates_elsewhere_status:
  "(\<And>w. w \<in> set ws \<Longrightarrow> \<exists>h' st upd n. w = UpdateTransactionStatus h' st upd n \<and> h' \<noteq> h) \<Longrightarrow>
   getTransaction (apply_writes db ws) h = getTransaction db h"
proof (induction ws arbitrary: db)
  case Nil
  show ?case by simp
next
  case (Cons w ws)
  from Cons.prems [of w] obtain h' st upd n
    where w: "w = UpdateTransactionStatus h' st upd n" and ne: "h' \<noteq> h" by auto
  have "getTransaction (apply_writes (apply_write db w) ws) h = getTransaction (apply_write db w) h"
  proof (rule Cons.IH)
    fix w' assume "w' \<in> set ws"
    then have "w' \<in> set (w # ws)" by simp
    from Cons.prems [OF this]
    show "\<exists>h' st upd n. w' = UpdateTransactionStatus h' st upd n \<and> h' \<noteq> h" .
  qed
  with ne show ?case by (simp add: w getTransaction_update)
qed

lemma pending_loop_writes:
  "w \<in> set (fst (pending_loop keccak256 chain now txs)) \<Longrightarrow>
     \<exists>t st upd n. t \<in> set txs \<and> w = UpdateTransactionStatus (bt_txHash t) st upd n"
proof (induction txs)
  case Nil
  then show ?case by simp
next
  case (Cons tx txs)
  from process_or_fail_shape [of keccak256 chain now tx] obtain u1 u2 u3 T where
    sh: "fst (process_or_fail keccak256 chain now tx) =
      [UpdateTransactionStatus (bt_txHash tx) Processing u1 now,
       UpdateTransactionStatus (bt_txHash tx) Processing u2 now,
       UpdateTransactionStatus (bt_txHash tx) T u3 now]" by blast
  from Cons.prems have "w \<in> set (fst (process_or_fail keccak256 chain now tx)) \<or>
      w \<in> set (fst (pending_loop keccak256 chain now txs))"
    by (simp only: pending_loop_Cons set_append Un_iff)
  then show ?case
  proof
    assume "w \<in> set (fst (process_or_fail keccak256 chain now tx))"
    then show ?thesis unfolding sh by auto
  next
    assume "w \<in> set (fst (pending_loop keccak256 chain now txs))"
    from Cons.IH [OF this] show ?thesis by auto
  qed
qed

lemma pending_loop_sent:
  "c \<in> set (snd (pending_loop keccak256 chain now txs)) \<Longrightarrow> submits h c \<Longrightarrow>
     \<exists>t \<in> set txs. bt_txHash t = h"
proof (induction txs)
  case Nil
  then show ?case by simp
next
  case (Cons tx txs)
  from Cons.prems(1) have "c \<in> set (snd (process_or_fail keccak256 chain now tx)) \<or>
      c \<in> set (snd (pending_loop keccak256 chain now txs))"
    by (simp only: pending_loop_Cons set_append Un_iff)
  then show ?case
  proof
    assume "c \<in> set (snd (process_or_fail keccak256 chain now tx))"
    from process_or_fail_sent [OF this Cons.prems(2)] show ?thesis by simp
  next
    assume "c \<in> set (snd (pending_loop keccak256 chain now txs))"
    from Cons.IH [OF this Cons.prems(2)] show ?thesis by auto
  qed
qed

lemma pending_loop_legal:
  "distinct (map bt_txHash txs) \<Longrightarrow>
   (\<And>t. t \<in> set txs \<Longrightarrow> status_of db (bt_txHash t) = Some Pending) \<Longrightarrow>
   legal_seq db (fst (pending_loop keccak256 chain now txs))"
proof (induction txs arbitrary: db)
  case Nil
  show ?case by simp
next
  case (Cons tx txs)
  from process_or_fail_shape [of keccak256 chain now tx] obtain u1 u2 u3 T where
    sh: "fst (process_or_fail keccak256 chain now tx) =
      [UpdateTransactionStatus (bt_txHash tx) Processing u1 now,
       UpdateTransactionStatus (bt_txHash tx) Processing u2 now,
       UpdateTransactionStatus (bt_txHash tx) T u3 now]" and T: "T = Completed \<or> T = Failed"
    by blast
  let ?ws = "fst (process_or_fail keccak256 chain now tx)"
  have p: "status_of db (bt_txHash tx) = Some Pending" by (rule Cons.prems(2)) simp
  have l1: "legal_seq db ?ws" unfolding sh by (rule three_writes_legal [OF p T])
  have d: "distinct (map bt_txHash txs)" using Cons.prems(1) by simp
  have l2: "legal_seq (apply_writes db ?ws) (fst (pending_loop keccak256 chain now txs))"
  proof (rule Cons.IH [OF d])
    fix t assume t: "t \<in> set txs"
    then have "bt_txHash t \<in> set (map bt_txHash txs)" by simp
    with Cons.prems(1) have ne: "bt_txHash t \<noteq> bt_txHash tx" by auto
    have "status_of db (bt_txHash t) = Some Pending" by (rule Cons.prems(2)) (simp add: t)
    with ne show "status_of (apply_writes db ?ws) (bt_txHash t) = Some Pending"
      unfolding sh by (simp add: status_of_update del: apply_write.simps)
  qed
  from l1 l2 show ?case by (simp only: pending_loop_Cons legal_seq_append)
qed

lemma getTransaction_member:
  "distinct (map bt_txHash db) \<Longrightarrow> r \<in> set db \<Longrightarrow> getTransaction db (bt_txHash r) = Some r"
  by (induction db) (auto simp add: getTransaction_def)

lemma pending_member:
  "t \<in> set (getPendingTransactions db) \<longleftrightarrow> t \<in> set db \<and> bt_status t = Pending"
  by (auto simp add: getPendingTransactions_def)

lemma distinct_map_insort_key:
  "distinct (map g (insort_key f x xs)) = (g x \<notin> g ` set xs \<and> distinct (map g xs))"
  by (induction xs) (auto simp add: set_insort_key)

lemma distinct_map_sort_key: "distinct (map g (sort_key f xs)) = distinct (map g xs)"
  by (induction xs) (simp_all add: sort_key_simps distinct_map_insort_key)

lemma pending_distinct:
  "distinct (map bt_txHash db) \<Longrightarrow> distinct (map bt_txHash (getPendingTransactions db))"
  unfolding getPendingTransactions_def distinct_map_sort_key by (rule distinct_map_filter)

lemma poll_legal:
  assumes d: "distinct (map bt_txHash db)"
  shows "legal_seq db (fst (processPendingTransactions keccak256 chain now db))"
  unfolding processPendingTransactions_def
proof (rule pending_loop_legal [OF pending_distinct [OF d]])
  fix t assume "t \<in> set (getPendingTransactions db)"
  then have m: "t \<in> set db" and s: "bt_status t = Pending" by (simp_all add: pending_member)
  from getTransaction_member [OF d m] s show "status_of db (bt_txHash t) = Some Pending"
    by (simp add: status_of_def)
qed



lemma poll_leaves_settled:
  assumes d: "distinct (map bt_txHash db)"
    and s: "status_of db h = Some s" and np: "s \<noteq> Pending"
  shows "getTransaction (apply_writes db (fst (processPendingTransactions keccak256 chain now db))) h =
           getTransaction db h"
    and "\<not> list_ex (submits h) (snd (processPendingTransactions keccak256 chain now db))"
proof -
  have none: "\<And>t. t \<in> set (getPendingTransactions db) \<Longrightarrow> bt_txHash t \<noteq> h"
  proof
    fix t assume "t \<in> set (getPendingTransactions db)" and e: "bt_txHash t = h"
    then have m: "t \<in> set db" and p: "bt_status t = Pending" by (simp_all add: pending_member)
    from getTransaction_member [OF d m] e p have "status_of db h = Some Pending"
      by (simp add: status_of_def)
    with s np show False by simp
  qed
  show "getTransaction (apply_writes db (fst (processPendingTransactions keccak256 chain now db))) h =
           getTransaction db h"
    unfolding processPendingTransactions_def
  proof (rule updates_elsewhere_status)
    fix w assume "w \<in> set (fst (pending_loop keccak256 chain now (getPendingTransactions db)))"
    from pending_loop_writes [OF this] obtain t st upd n
      where "t \<in> set (getPendingTransactions db)" and "w = UpdateTransactionStatus (bt_txHash t) st upd n"
      by blast
    with none [of t] show "\<exists>h' st upd n. w = UpdateTransactionStatus h' st upd n \<and> h' \<noteq> h"
      by blast
  qed
  show "\<not> list_ex (submits h) (snd (processPendingTransactions keccak256 chain now db))"
    unfolding processPendingTransactions_def list_ex_iff
  proof
    assume "\<exists>c \<in> set (snd (pending_loop keccak256 chain now (getPendingTransactions db))). submits h c"
    then obtain c where "c \<in> set (snd (pending_loop keccak256 chain now (getPendingTransactions db)))"
      and "submits h c" by blast
    from pending_loop_sent [OF this] none show False by blast
  qed
qed




lemma inserts_keep_rows:
  "(\<And>w. w \<in> set ws \<Longrightarrow> \<exists>row. w = InsertTransaction row) \<Longrightarrow> getTransaction db h = Some r \<Longrightarrow>
   getTransaction (apply_writes db ws) h = Some r"
proof (induction ws arbitrary: db)
  case Nil
  then show ?case by simp
next
  case (Cons w ws)
  from Cons.prems(1) [of w] obtain row where w: "w = InsertTransaction row" by auto
  have k: "getTransaction (apply_write db w) h = Some r"
    using Cons.prems(2) by (simp add: w apply_insert getTransaction_snoc del: apply_write.simps)
  have "getTransaction (apply_writes (apply_write db w) ws) h = Some r"
  proof (rule Cons.IH [OF _ k])
    fix w' assume "w' \<in> set ws"
    then have "w' \<in> set (w # ws)" by simp
    from Cons.prems(1) [OF this] show "\<exists>row. w' = InsertTransaction row" .
  qed
  then show ?case by (simp del: apply_write.simps)
qed

lemma op_leaves_settled:
  assumes d: "distinct (map bt_txHash db)"
    and s: "status_of db h = Some s" and np: "s \<noteq> Pending"
  shows "getTransaction (apply_writes db (op_writes keccak256 db op)) h = getTransaction db h"
    and "\<not> list_ex (submits h) (op_sent keccak256 db op)"
proof -
  from s obtain r where r: "getTransaction db h = Some r" by (auto simp add: status_of_def)
  show "getTransaction (apply_writes db (op_writes keccak256 db op)) h = getTransaction db h"
  proof (cases op)
    case (ObserveLock ev confirmed now)
    show ?thesis unfolding ObserveLock op_writes.simps onBridgingInitiated_def r
      by (rule inserts_keep_rows [OF _ r]) (rule onEvent_inserts)
  next
    case (ObserveBurn ev confirmed now)
    show ?thesis unfolding ObserveBurn op_writes.simps onTokensBurned_def r
      by (rule inserts_keep_rows [OF _ r]) (rule onEvent_inserts)
  next
    case (Historical sepoliaEvents amoyEvents now)
    show ?thesis unfolding Historical op_writes.simps r
      by (rule inserts_keep_rows [OF _ r]) (rule processHistoricalEvents_inserts)
  next
    case (Poll chain now)
    show ?thesis unfolding Poll op_writes.simps by (rule poll_leaves_settled(1) [OF d s np])
  qed
  show "\<not> list_ex (submits h) (op_sent keccak256 db op)"
  proof (cases op)
    case (Poll chain now)
    show ?thesis unfolding Poll op_sent.simps by (rule poll_leaves_settled(2) [OF d s np])
  qed simp_all
qed

lemma pipeline_leaves_settled:
  "distinct (map bt_txHash db) \<Longrightarrow> status_of db h = Some s \<Longrightarrow> s \<noteq> Pending \<Longrightarrow>
   getTransaction (pipeline_run keccak256 db ops) h = getTransaction db h \<and>
   \<not> list_ex (submits h) (pipeline_sent keccak256 db ops)"
proof (induction ops arbitrary: db)
  case Nil
  show ?case by simp
next
  case (Cons op ops)
  let ?db' = "apply_writes db (op_writes keccak256 db op)"
  note o = op_leaves_settled [OF Cons.prems, of keccak256 op]
  have d': "distinct (map bt_txHash ?db')" by (rule distinct_apply_writes [OF Cons.prems(1)])
  have s': "status_of ?db' h = Some s" using Cons.prems(2) o(1) by (simp add: status_of_def)
  from Cons.IH [OF d' s' Cons.prems(3)] o show ?case by simp
qed


lemma status_of_Nil [simp]: "status_of [] h = None"
  by (simp add: status_of_def)

lemma getTransaction_Cons:
  "getTransaction (r # db) h = (if bt_txHash r = h then Some r else getTransaction db h)"
  by (simp add: getTransaction_def)

lemma ex_db_pending_status: "status_of ex_db_pending ''0xaa'' = Some Pending"
  by (simp add: ex_db_pending_def onBridgingInitiated_def onEvent_def row_of_event_def
      ex_event_def status_of_insert del: apply_write.simps)

lemma ex_db_pending_distinct: "distinct (map bt_txHash ex_db_pending)"
  unfolding ex_db_pending_def by (rule distinct_apply_writes) simp

lemma ex_db_crashed_status: "status_of ex_db_crashed ''0xaa'' = Some Processing"
  by (simp add: ex_db_crashed_def processing_writes_def Let_def row_of_event_def ex_event_def
      status_of_update ex_db_pending_status del: apply_write.simps)

lemma ex_db_crashed_distinct: "distinct (map bt_txHash ex_db_crashed)"
  unfolding ex_db_crashed_def by (rule distinct_apply_writes [OF ex_db_pending_distinct])

lemma ex_db_crashed_destTxHash:
  "map_option bt_destTxHash (getTransaction ex_db_crashed ''0xaa'') = Some None"
  by (simp add: ex_db_crashed_def ex_db_pending_def processing_writes_def Let_def
      onBridgingInitiated_def onEvent_def apply_insert
      row_of_event_def ex_event_def getTransaction_update getTransaction_Cons update_row_def
      no_updates_def del: apply_write.simps(1))




text \<open>The callbacks of the event listener run between the writes of a round of the
  submitter, where it awaits the destination chain. Whatever rows they insert, and
  wherever among the writes of the round, every write still follows the lifecycle.\<close>

lemma status_of_insert_present:
  "status_of db h = Some s \<Longrightarrow> status_of (apply_write db (InsertTransaction row)) h = Some s"
  by (simp add: status_of_insert del: apply_write.simps)

lemma legal_seq_cong:
  "(\<And>w. w \<in> set ws \<Longrightarrow> \<exists>h st upd n. w = UpdateTransactionStatus h st upd n \<and>
       status_of db h = status_of db' h) \<Longrightarrow>
   legal_seq db ws = legal_seq db' ws"
proof (induction ws arbitrary: db db')
  case Nil
  show ?case by simp
next
  case (Cons w ws)
  from Cons.prems [of w] obtain h st upd n
    where w: "w = UpdateTransactionStatus h st upd n" and e: "status_of db h = status_of db' h"
    by auto
  have "legal_seq (apply_write db w) ws = legal_seq (apply_write db' w) ws"
  proof (rule Cons.IH)
    fix w' assume "w' \<in> set ws"
    then have "w' \<in> set (w # ws)" by simp
    from Cons.prems [OF this] obtain h' st' upd' n'
      where w': "w' = UpdateTransactionStatus h' st' upd' n'"
        and e': "status_of db h' = status_of db' h'" by auto
    from e e' have "status_of (apply_write db w) h' = status_of (apply_write db' w) h'"
      unfolding w by (simp add: status_of_update del: apply_write.simps)
    with w' show "\<exists>h st upd n. w' = UpdateTransactionStatus h st upd n \<and>
       status_of (apply_write db w) h = status_of (apply_write db' w) h" by blast
  qed
  with e show ?case by (simp add: w del: apply_write.simps)
qed

lemma shuffled_inserts_legal:
  "legal_seq db ws \<Longrightarrow>
   (\<And>w. w \<in> set ws \<Longrightarrow> \<exists>h st upd n. w = UpdateTransactionStatus h st upd n \<and>
       status_of db h \<noteq> None) \<Longrightarrow>
   (\<And>w. w \<in> set ins \<Longrightarrow> \<exists>row. w = InsertTransaction row) \<Longrightarrow>
   zs \<in> shuffles ws ins \<Longrightarrow> legal_seq db zs"
proof (induction zs arbitrary: db ws ins)
  case Nil
  show ?case by simp
next
  case (Cons z zs)
  from Cons.prems(4) consider
    (left) ws' where "ws = z # ws'" and "zs \<in> shuffles ws' ins"
    | (right) ins' where "ins = z # ins'" and "zs \<in> shuffles ws ins'"
    by (auto simp add: Cons_in_shuffles_iff neq_Nil_conv)
  then show ?case
  proof cases
    case left
    from Cons.prems(1) have lw: "legal_write db z" and ls: "legal_seq (apply_write db z) ws'"
      unfolding left(1) by simp_all
    from Cons.prems(2) [of z] obtain h st upd n where z: "z = UpdateTransactionStatus h st upd n"
      unfolding left(1) by auto
    have "legal_seq (apply_write db z) zs"
    proof (rule Cons.IH [OF ls _ _ left(2)])
      fix w assume "w \<in> set ws'"
      then have "w \<in> set ws" unfolding left(1) by simp
      from Cons.prems(2) [OF this] obtain h' st' upd' n'
        where "w = UpdateTransactionStatus h' st' upd' n'" and "status_of db h' \<noteq> None" by auto
      then show "\<exists>h st upd n. w = UpdateTransactionStatus h st upd n \<and>
          status_of (apply_write db z) h \<noteq> None"
        unfolding z by (auto simp add: status_of_update simp del: apply_write.simps)
    next
      fix w assume "w \<in> set ins"
      from Cons.prems(3) [OF this] show "\<exists>row. w = InsertTransaction row" .
    qed
    with lw show ?thesis by simp
  next
    case right
    from Cons.prems(3) [of z] obtain row where z: "z = InsertTransaction row"
      unfolding right(1) by auto
    have keep: "\<And>h. status_of db h \<noteq> None \<Longrightarrow> status_of (apply_write db z) h = status_of db h"
      unfolding z using status_of_insert_present by auto
    have "legal_seq (apply_write db z) ws = legal_seq db ws"
    proof (rule legal_seq_cong)
      fix w assume "w \<in> set ws"
      from Cons.prems(2) [OF this] obtain h st upd n
        where "w = UpdateTransactionStatus h st upd n" and "status_of db h \<noteq> None" by auto
      with keep [of h] show "\<exists>h st upd n. w = UpdateTransactionStatus h st upd n \<and>
          status_of (apply_write db z) h = status_of db h" by blast
    qed
    with Cons.prems(1) have ls: "legal_seq (apply_write db z) ws" by simp
    have "legal_seq (apply_write db z) zs"
    proof (rule Cons.IH [OF ls _ _ right(2)])
      fix w assume "w \<in> set ws"
      from Cons.prems(2) [OF this] obtain h st upd n
        where "w = UpdateTransactionStatus h st upd n" and "status_of db h \<noteq> None" by auto
      with keep [of h] show "\<exists>h st upd n. w = UpdateTransactionStatus h st upd n \<and>
          status_of (apply_write db z) h \<noteq> None" by auto
    next
      fix w assume "w \<in> set ins'"
      then have "w \<in> set ins" unfolding right(1) by simp
      from Cons.prems(3) [OF this] show "\<exists>row. w = InsertTransaction row" .
    qed
    then show ?thesis by (simp add: z del: apply_write.simps)
  qed
qed

lemma round_with_inserts_forward:
  assumes d: "distinct (map bt_txHash db)"
    and ins: "\<And>w. w \<in> set ins \<Longrightarrow> \<exists>row. w = InsertTransaction row"
    and zs: "zs \<in> shuffles (fst (processPendingTransactions keccak256 chain now db)) ins"
  shows "all_adjacent forward (db # db_trace db zs)"
proof (rule legal_seq_trace, rule shuffled_inserts_legal [OF poll_legal [OF d] _ ins zs])
  fix w assume "w \<in> set (fst (processPendingTransactions keccak256 chain now db))"
  then have "w \<in> set (fst (pending_loop keccak256 chain now (getPendingTransactions db)))"
    by (simp only: processPendingTransactions_def)
  from pending_loop_writes [OF this] obtain t st upd n
    where t: "t \<in> set (getPendingTransactions db)"
      and w: "w = UpdateTransactionStatus (bt_txHash t) st upd n" by blast
  from t have m: "t \<in> set db" by (simp add: pending_member)
  from getTransaction_member [OF d m] have "status_of db (bt_txHash t) \<noteq> None"
    by (simp add: status_of_def)
  with w show "\<exists>h st upd n. w = UpdateTransactionStatus h st upd n \<and> status_of db h \<noteq> None"
    by blast
qed



section \<open>Restart after a crash\<close>

text \<open>
  C7, as stated, does not hold. In \<open>ex_db_crashed\<close> transfer \<open>0xaa\<close> is as the relayer
  leaves it when it dies after \<open>mint\<close> settled and before the \<open>completed\<close> write:
  \<open>processing\<close>, no destination transaction hash. On restart (the historical scan
  sees the event again, then a round of the submitter) the transfer is still
  \<open>processing\<close>: nothing reads the destination settlement reference or
  \<open>usedNonces\<close>, and nothing marks it \<open>completed\<close>.
\<close>

theorem C7_counterexample:
  "status_of ex_db_crashed ''0xaa'' = Some Processing \<and>
   map_option bt_destTxHash (getTransaction ex_db_crashed ''0xaa'') = Some None \<and>
   status_of (pipeline_run sample_hash ex_db_crashed ex_restart) ''0xaa'' = Some Processing \<and>
   status_of (pipeline_run sample_hash ex_db_crashed ex_restart) ''0xaa'' \<noteq> Some Completed"
proof -
  have "getTransaction (pipeline_run sample_hash ex_db_crashed ex_restart) ''0xaa'' =
          getTransaction ex_db_crashed ''0xaa''"
    using pipeline_leaves_settled [OF ex_db_crashed_distinct ex_db_crashed_status] by simp
  then have "status_of (pipeline_run sample_hash ex_db_crashed ex_restart) ''0xaa'' = Some Processing"
    using ex_db_crashed_status by (simp add: status_of_def)
  with ex_db_crashed_status ex_db_crashed_destTxHash show ?thesis by simp
qed

text \<open>
  C7 (amended). The submitter reads only \<open>pending\<close> rows. For a table with distinct
  transaction hashes and a transfer whose status is not \<open>pending\<close> (in particular one
  left \<open>processing\<close> by a crash after its destination operation settled), no sequence
  of pipeline operations changes the row of the transfer, and none sends \<open>mint\<close> or
  \<open>unlock\<close> for it: the destination operation is not submitted a second time, and the
  transfer is never marked \<open>completed\<close>.
\<close>

theorem C7_restart_leaves_processing_rows:
  assumes "distinct (map bt_txHash db)" and "status_of db txHash = Some s" and "s \<noteq> Pending"
  shows "getTransaction (pipeline_run keccak256 db ops) txHash = getTransaction db txHash \<and>
         \<not> list_ex (submits txHash) (pipeline_sent keccak256 db ops)"
  by (rule pipeline_leaves_settled [OF assms])

theorem C7_restart_leaves_processing_rows_witness:
  "distinct (map bt_txHash ex_db_crashed) \<and>
   status_of ex_db_crashed ''0xaa'' = Some Processing \<and>
   Processing \<noteq> Pending \<and>
   getTransaction (pipeline_run sample_hash ex_db_crashed ex_restart) ''0xaa'' =
     getTransaction ex_db_crashed ''0xaa'' \<and>
   \<not> list_ex (submits ''0xaa'') (pipeline_sent sample_hash ex_db_crashed ex_restart)"
  using C7_restart_leaves_processing_rows [OF ex_db_crashed_distinct ex_db_crashed_status,
      of sample_hash ex_restart]
    ex_db_crashed_distinct ex_db_crashed_status
  by simp

end
